theory Spec2Isabelle
  imports Complex_Main "HOL-Library.Multiset" "HOL-Library.Log_Nat"
begin

section \<open>Python built-ins used by the scripts\<close>

text \<open>
  Python integers are unbounded, so they are \<open>int\<close>. The exceptions that the modelled
  code can raise are values of \<open>py_error\<close>; a call that may raise returns
  \<open>py_error + 'a\<close> with \<open>Inl\<close> for the exception.
\<close>

datatype py_error =
  ZeroDivisionError | OverflowError | ValueError | SyntaxError | AttributeError

text \<open>
  The numbers that occur in the scripts: an \<open>int\<close>, or a \<open>float\<close> (an IEEE 754 double).
  A finite double is a rational number, and \<open>PyFloat\<close> carries that value; the sign of a
  zero is not represented.
\<close>

datatype pyval = PyInt int | PyFloat rat

text \<open>
  \<^verbatim>\<open>sum(xs)\<close> starts from 0 and adds the items from left to right.
\<close>

definition py_sum :: "int list \<Rightarrow> int" where
  "py_sum xs = foldl (+) 0 xs"

text \<open>
  \<^verbatim>\<open>max(xs)\<close> raises \<open>ValueError\<close> on an empty list; otherwise it keeps the first item and
  replaces it by each later item that is greater.
\<close>

fun py_max :: "int list \<Rightarrow> py_error + int" where
  "py_max [] = Inl ValueError"
| "py_max (x # xs) = Inr (foldl (\<lambda>maxval item. if item > maxval then item else maxval) x xs)"

text \<open>
  \<^verbatim>\<open>str(n)\<close> of an integer is its decimal numeral, with a minus sign when negative.
\<close>

fun digits :: "nat \<Rightarrow> string" where
  "digits n =
     (if n < 10 then [''0123456789'' ! n]
      else digits (n div 10) @ [''0123456789'' ! (n mod 10)])"

definition str_int :: "int \<Rightarrow> string" where
  "str_int n = (if n < 0 then ''-'' @ digits (nat (- n)) else digits (nat n))"

subsection \<open>True division of integers\<close>

text \<open>
  \<^verbatim>\<open>a / b\<close> on two integers gives the double nearest to the exact quotient, ties going
  to the even significand; it raises \<open>ZeroDivisionError\<close> when \<open>b\<close> is 0 and
  \<open>OverflowError\<close> when the rounded quotient does not fit a double, that is when it
  reaches \<open>2 ^ 1024\<close>. A double has 53 significant bits and its last bit weighs at
  least \<open>2 ^ - 1074\<close>.

  \<open>rne_div n d\<close> is the integer nearest to \<open>n / d\<close> (ties to even) for \<open>0 \<le> n\<close> and
  \<open>0 < d\<close>; \<open>ilog2_quot n d\<close> is the exponent of the leading bit of \<open>n / d\<close> for
  \<open>0 < n\<close> and \<open>0 < d\<close>; \<open>round_at u n d\<close> rounds \<open>n / d\<close> to a multiple of \<open>2 ^ u\<close>,
  dividing the integers \<open>scale_num u n\<close> and \<open>scale_den u d\<close>, whose quotient is
  \<open>n / d / 2 ^ u\<close>; \<open>double_of_quot n d\<close> rounds \<open>n / d\<close> to 53 significant bits with no
  upper bound on the exponent.
\<close>

definition pow2 :: "int \<Rightarrow> rat" where
  "pow2 e = (if 0 \<le> e then 2 ^ nat e else 1 / 2 ^ nat (- e))"

definition rne_div :: "int \<Rightarrow> int \<Rightarrow> int" where
  "rne_div n d =
     (let q = n div d; r = n mod d
      in if 2 * r < d then q
         else if d < 2 * r then q + 1
         else if even q then q else q + 1)"

definition ilog2_quot :: "int \<Rightarrow> int \<Rightarrow> int" where
  "ilog2_quot n d =
     (let e0 = bitlen n - bitlen d
      in if pow2 e0 * of_int d \<le> of_int n then e0 else e0 - 1)"

definition scale_num :: "int \<Rightarrow> int \<Rightarrow> int" where
  "scale_num u n = (if 0 \<le> u then n else n * 2 ^ nat (- u))"

definition scale_den :: "int \<Rightarrow> int \<Rightarrow> int" where
  "scale_den u d = (if 0 \<le> u then d * 2 ^ nat u else d)"

definition round_at :: "int \<Rightarrow> int \<Rightarrow> int \<Rightarrow> rat" where
  "round_at u n d = of_int (rne_div (scale_num u n) (scale_den u d)) * pow2 u"

definition double_of_quot :: "int \<Rightarrow> int \<Rightarrow> rat" where
  "double_of_quot n d =
     (if n = 0 then 0 else round_at (max (ilog2_quot n d - 52) (- 1074)) n d)"

definition py_truediv :: "int \<Rightarrow> int \<Rightarrow> py_error + rat" where
  "py_truediv a b =
     (if b = 0 then Inl ZeroDivisionError
      else let x = double_of_quot (abs a) (abs b)
           in if 2 ^ 1024 \<le> x then Inl OverflowError
              else Inr (if (a < 0) \<noteq> (b < 0) then - x else x))"

section \<open>dist/examples/example.py\<close>

text \<open>
  \<^verbatim>\<open>
  def calculate_sum(a: int, b: int) -> int:
      return a + b

  def process_list(numbers: list[int]) -> int:
      numbers.sort()
      return sum(numbers)
  \<close>
  \<open>process_list\<close> sorts the caller's list object in place. The model returns the
  result together with the contents of that list object after the call.
\<close>

definition calculate_sum :: "int \<Rightarrow> int \<Rightarrow> int" where
  "calculate_sum a b = a + b"

definition process_list :: "int list \<Rightarrow> int \<times> int list" where
  "process_list numbers = (let numbers' = sort numbers in (py_sum numbers', numbers'))"

text \<open>
  \<^verbatim>\<open>
  class Calculator:
      def __init__(self, initial_value: int = 0):
          self.value = initial_value
      def add(self, amount: int) -> int:
          self.value += amount
          return self.value
      def get_value(self) -> int:
          return self.value
  \<close>
  Each method takes the object's state and returns its result with the new state.
\<close>

record Calculator =
  val :: int  \<comment> \<open>\<^verbatim>\<open>self.value\<close>\<close>

definition Calculator_init :: "int \<Rightarrow> Calculator" where
  "Calculator_init initial_value = \<lparr>val = initial_value\<rparr>"

definition add :: "Calculator \<Rightarrow> int \<Rightarrow> int \<times> Calculator" where
  "add self amount = (let self' = self\<lparr>val := val self + amount\<rparr> in (val self', self'))"

definition get_value :: "Calculator \<Rightarrow> int" where
  "get_value self = val self"

text \<open>Calling \<open>add\<close> with each amount of a list in turn, dropping the returned values.\<close>

fun add_all :: "Calculator \<Rightarrow> int list \<Rightarrow> Calculator" where
  "add_all self [] = self"
| "add_all self (a # as) = add_all (snd (add self a)) as"

section \<open>examples/advanced_example.py\<close>

text \<open>
  \<^verbatim>\<open>
  class DataProcessor:
      def __init__(self, name: str):
          self.name = name
          self.data = []
          self.processed = False

      def add_item(self, item: int) -> None:
          self.data.append(item)
  \<close>
\<close>

record DataProcessor =
  name :: string
  data :: "int list"
  processed :: bool

definition DataProcessor_init :: "string \<Rightarrow> DataProcessor" where
  "DataProcessor_init nm = \<lparr>name = nm, data = [], processed = False\<rparr>"

definition add_item :: "DataProcessor \<Rightarrow> int \<Rightarrow> DataProcessor" where
  "add_item self item = self\<lparr>data := data self @ [item]\<rparr>"

text \<open>
  \<^verbatim>\<open>
      def process_data(self) -> List[int]:
          if not self.data:
              return []
          result = []
          for item in self.data:
              if item > 0:
                  processed_item = item * 2
                  result.append(processed_item)
          self.processed = True
          return result
  \<close>
  \<open>process_loop items result\<close> is the \<^verbatim>\<open>for\<close> loop with \<open>items\<close> still to visit.
\<close>

fun process_loop :: "int list \<Rightarrow> int list \<Rightarrow> int list" where
  "process_loop [] result = result"
| "process_loop (item # items) result =
     (if item > 0 then process_loop items (result @ [item * 2])
      else process_loop items result)"

definition process_data :: "DataProcessor \<Rightarrow> int list \<times> DataProcessor" where
  "process_data self =
     (if data self = [] then ([], self)
      else let result = process_loop (data self) []
           in (result, self\<lparr>processed := True\<rparr>))"

text \<open>
  \<^verbatim>\<open>
      def get_statistics(self) -> dict:
          if not self.processed:
              self.process_data()
          total = sum(self.data)
          count = len(self.data)
          average = total / count if count > 0 else 0
          return {
              'total': total,
              'count': count,
              'average': average,
              'max': max(self.data) if self.data else 0
          }
  \<close>
  The returned dictionary is a map from its keys to numbers. An exception leaves the
  object as it was when the exception was raised.
\<close>

type_synonym stats = "string \<rightharpoonup> pyval"

definition get_statistics :: "DataProcessor \<Rightarrow> (py_error + stats) \<times> DataProcessor" where
  "get_statistics self =
     (let self1 = (if \<not> processed self then snd (process_data self) else self);
          total = py_sum (data self1);
          count = int (length (data self1))
      in case (if count > 0 then map_sum id PyFloat (py_truediv total count)
               else Inr (PyInt 0)) of
           Inl e \<Rightarrow> (Inl e, self1)
         | Inr average \<Rightarrow>
             (case (if data self1 \<noteq> [] then py_max (data self1) else Inr 0) of
                Inl e \<Rightarrow> (Inl e, self1)
              | Inr mx \<Rightarrow>
                  (Inr [''total'' \<mapsto> PyInt total, ''count'' \<mapsto> PyInt count,
                        ''average'' \<mapsto> average, ''max'' \<mapsto> PyInt mx],
                   self1)))"

text \<open>
  \<^verbatim>\<open>
  def create_processor(name: str, initial_data: List[int] = None) -> DataProcessor:
      processor = DataProcessor(name)
      if initial_data:
          for item in initial_data:
              processor.add_item(item)
      return processor
  \<close>
\<close>

definition create_processor :: "string \<Rightarrow> int list option \<Rightarrow> DataProcessor" where
  "create_processor nm initial_data =
     (case initial_data of
        None \<Rightarrow> DataProcessor_init nm
      | Some items \<Rightarrow> foldl add_item (DataProcessor_init nm) items)"

text \<open>
  The states a processor can reach: a client constructs it and then calls its methods
  in any order. A call of \<open>get_statistics\<close> that raises still leaves its state behind.
\<close>

datatype call = AddItem int | ProcessData | GetStatistics

fun do_call :: "DataProcessor \<Rightarrow> call \<Rightarrow> DataProcessor" where
  "do_call self (AddItem item) = add_item self item"
| "do_call self ProcessData = snd (process_data self)"
| "do_call self GetStatistics = snd (get_statistics self)"

definition run_calls :: "string \<Rightarrow> call list \<Rightarrow> DataProcessor" where
  "run_calls nm calls = foldl do_call (DataProcessor_init nm) calls"

text \<open>
  \<open>is_compute\<close> holds of the calls that run the computation of the processor
  (\<open>process_data\<close>, directly or from \<open>get_statistics\<close>). \<open>summary_computed calls\<close>
  says that the computation has run during the calls; \<open>computed_on_data calls\<close> says
  that it has run after some item had been added.
\<close>

fun is_compute :: "call \<Rightarrow> bool" where
  "is_compute (AddItem item) = False"
| "is_compute ProcessData = True"
| "is_compute GetStatistics = True"

definition summary_computed :: "call list \<Rightarrow> bool" where
  "summary_computed calls = list_ex is_compute calls"

fun computed_on_data :: "call list \<Rightarrow> bool" where
  "computed_on_data [] = False"
| "computed_on_data (AddItem item # calls) = list_ex is_compute calls"
| "computed_on_data (c # calls) = computed_on_data calls"

section \<open>examples/gui_example.py\<close>

text \<open>
  \<^verbatim>\<open>
      def calculate(self):
          try:
              expression = self.result_var.get()
              result = eval(expression)
              self.result_var.set(str(result))
          except:
              messagebox.showerror("Error", "Invalid expression")
  \<close>
  The entry widget bound to \<^verbatim>\<open>self.result_var\<close> is editable, so the text of the display is
  any string, and \<^verbatim>\<open>eval\<close> runs it as a Python expression in the scope of \<open>calculate\<close>,
  where \<^verbatim>\<open>self\<close> and the globals of the module are visible. The evaluated text can
  therefore do anything to the program: write the display, rebind \<^verbatim>\<open>self.result_var\<close>,
  destroy the window. Every call that \<open>calculate\<close> makes can then return, raise, or not
  return at all, and leaves the program in a new state.

  The state of the whole program is a type parameter \<open>'w\<close>, and the calls are the fields
  of an environment, with exceptions \<open>'e\<close>, Python values \<open>'v\<close> and bound methods \<open>'m\<close>:
  \<^item> \<open>var_get\<close> is \<^verbatim>\<open>self.result_var.get()\<close>;
  \<^item> \<open>py_eval\<close> is \<^verbatim>\<open>eval(expression)\<close>;
  \<^item> \<open>set_lookup\<close> is the lookup of \<^verbatim>\<open>self.result_var.set\<close>, which Python does before it
    evaluates the argument of the call;
  \<^item> \<open>py_str\<close> is \<^verbatim>\<open>str(result)\<close>;
  \<^item> \<open>var_set\<close> is the call of the method that was looked up;
  \<^item> \<open>showerror\<close> is \<^verbatim>\<open>messagebox.showerror(title, message)\<close>.
\<close>

datatype ('e, 'a) outcome = Returns 'a | Raises 'e | NoReturn

record ('w, 'e, 'v, 'm) env =
  var_get :: "'w \<Rightarrow> ('e, string) outcome \<times> 'w"
  py_eval :: "string \<Rightarrow> 'w \<Rightarrow> ('e, 'v) outcome \<times> 'w"
  set_lookup :: "'w \<Rightarrow> ('e, 'm) outcome \<times> 'w"
  py_str :: "'v \<Rightarrow> 'w \<Rightarrow> ('e, string) outcome \<times> 'w"
  var_set :: "'m \<Rightarrow> string \<Rightarrow> 'w \<Rightarrow> ('e, unit) outcome \<times> 'w"
  showerror :: "string \<Rightarrow> string \<Rightarrow> 'w \<Rightarrow> ('e, unit) outcome \<times> 'w"

text \<open>
  \<open>calculate\<close> is run on the list of the calls made so far together with the state of
  the program: \<open>perform c f\<close> makes the call \<open>f\<close> and records it as \<open>c\<close>. Statements in
  sequence are \<open>then_do\<close>: the second runs when the first returns. The bare
  \<^verbatim>\<open>except\<close> is \<open>try_except\<close>: the handler runs on every exception, of whatever kind,
  and on nothing else.
\<close>

datatype 'v gui_call =
  VarGet | EvalText string | VarSetLookup | StrOf 'v | VarSet string | ShowError string string

definition perform ::
  "'v gui_call \<Rightarrow> ('w \<Rightarrow> ('e, 'a) outcome \<times> 'w) \<Rightarrow>
   'v gui_call list \<times> 'w \<Rightarrow> ('e, 'a) outcome \<times> 'v gui_call list \<times> 'w" where
  "perform c f s = (case f (snd s) of (r, w') \<Rightarrow> (r, fst s @ [c], w'))"

definition then_do ::
  "('s \<Rightarrow> ('e, 'a) outcome \<times> 's) \<Rightarrow> ('a \<Rightarrow> 's \<Rightarrow> ('e, 'b) outcome \<times> 's) \<Rightarrow>
   's \<Rightarrow> ('e, 'b) outcome \<times> 's" where
  "then_do m f s =
     (case m s of
        (Returns a, s') \<Rightarrow> f a s'
      | (Raises e, s') \<Rightarrow> (Raises e, s')
      | (NoReturn, s') \<Rightarrow> (NoReturn, s'))"

definition try_except ::
  "('s \<Rightarrow> ('e, 'a) outcome \<times> 's) \<Rightarrow> ('s \<Rightarrow> ('e, 'a) outcome \<times> 's) \<Rightarrow>
   's \<Rightarrow> ('e, 'a) outcome \<times> 's" where
  "try_except body handler s =
     (case body s of
        (Raises e, s') \<Rightarrow> handler s'
      | (Returns a, s') \<Rightarrow> (Returns a, s')
      | (NoReturn, s') \<Rightarrow> (NoReturn, s'))"

text \<open>The body of the \<^verbatim>\<open>try\<close>, then \<open>calculate\<close>, which starts with no call made.\<close>

definition calculate_body ::
  "('w, 'e, 'v, 'm) env \<Rightarrow> 'v gui_call list \<times> 'w \<Rightarrow>
   ('e, unit) outcome \<times> 'v gui_call list \<times> 'w" where
  "calculate_body env =
     then_do (perform VarGet (var_get env)) (\<lambda>expression.
     then_do (perform (EvalText expression) (py_eval env expression)) (\<lambda>result.
     then_do (perform VarSetLookup (set_lookup env)) (\<lambda>setter.
     then_do (perform (StrOf result) (py_str env result)) (\<lambda>text.
     perform (VarSet text) (var_set env setter text)))))"

definition calculate ::
  "('w, 'e, 'v, 'm) env \<Rightarrow> 'w \<Rightarrow> ('e, unit) outcome \<times> 'v gui_call list \<times> 'w" where
  "calculate env w =
     try_except (calculate_body env)
       (perform (ShowError ''Error'' ''Invalid expression'')
          (showerror env ''Error'' ''Invalid expression''))
       ([], w)"

definition calls_of :: "'r \<times> 'c list \<times> 'w \<Rightarrow> 'c list" where
  "calls_of r = fst (snd r)"

definition world_of :: "'r \<times> 'c list \<times> 'w \<Rightarrow> 'w" where
  "world_of r = snd (snd r)"

text \<open>
  \<open>guarded_raises env w\<close> says that one of the five calls of the guarded block raises,
  the calls before it having returned.
\<close>

fun is_showerror :: "'v gui_call \<Rightarrow> bool" where
  "is_showerror (ShowError title message) = True"
| "is_showerror c = False"

definition guarded_raises :: "('w, 'e, 'v, 'm) env \<Rightarrow> 'w \<Rightarrow> bool" where
  "guarded_raises env w =
     (case var_get env w of
        (Raises e, w1) \<Rightarrow> True
      | (NoReturn, w1) \<Rightarrow> False
      | (Returns expression, w1) \<Rightarrow>
     (case py_eval env expression w1 of
        (Raises e, w2) \<Rightarrow> True
      | (NoReturn, w2) \<Rightarrow> False
      | (Returns result, w2) \<Rightarrow>
     (case set_lookup env w2 of
        (Raises e, w3) \<Rightarrow> True
      | (NoReturn, w3) \<Rightarrow> False
      | (Returns setter, w3) \<Rightarrow>
     (case py_str env result w3 of
        (Raises e, w4) \<Rightarrow> True
      | (NoReturn, w4) \<Rightarrow> False
      | (Returns text, w4) \<Rightarrow>
     (case var_set env setter text w4 of
        (Raises e, w5) \<Rightarrow> True
      | (NoReturn, w5) \<Rightarrow> False
      | (Returns u, w5) \<Rightarrow> False)))))"

subsection \<open>A window for concrete inputs\<close>

text \<open>
  A small state of the program and the behaviour of Python and Tk on it, for use at
  concrete inputs: \<open>var_text\<close> is the text of the Tk variable that the entry widget
  shows, and \<open>var_bound\<close> says that \<^verbatim>\<open>self.result_var\<close> is still that variable.
  \<^verbatim>\<open>
      def clear(self):
          self.result_var.set("")
  \<close>
  \<open>eval_sample\<close> is \<^verbatim>\<open>eval\<close> on five texts. \<^verbatim>\<open>1 + 2\<close> evaluates to 3. \<^verbatim>\<open>1 + \<close> is not
  an expression. \<^verbatim>\<open>[self.clear(), 1/0]\<close> evaluates its items from the left: it calls
  \<open>clear\<close> and then divides by zero. The fourth text builds an instance of a new class
  whose \<^verbatim>\<open>__str__\<close> divides by zero: the evaluation returns the instance \<open>XObj\<close>, and its
  conversion to a string raises. The fifth text rebinds \<^verbatim>\<open>self.result_var\<close> to
  \<^verbatim>\<open>None\<close> and evaluates to \<^verbatim>\<open>None\<close>: the lookup of \<^verbatim>\<open>set\<close> that follows raises
  \<open>AttributeError\<close>. No other text is used below; \<open>eval_sample\<close> answers it like the
  second. The dialog of \<open>tk_sample\<close> returns when it is dismissed and changes nothing.
\<close>

record SimpleGUI =
  var_bound :: bool
  var_text :: string

definition window :: "string \<Rightarrow> SimpleGUI" where
  "window text = \<lparr>var_bound = True, var_text = text\<rparr>"

datatype pyobj = IntObj int | NoneObj | XObj

definition clear :: "SimpleGUI \<Rightarrow> (py_error, unit) outcome \<times> SimpleGUI" where
  "clear self =
     (if var_bound self then (Returns (), self\<lparr>var_text := ''''\<rparr>)
      else (Raises AttributeError, self))"

definition eval_sample :: "string \<Rightarrow> SimpleGUI \<Rightarrow> (py_error, pyobj) outcome \<times> SimpleGUI" where
  "eval_sample expression self =
     (if expression = ''1 + 2'' then (Returns (IntObj 3), self)
      else if expression = ''[self.clear(), 1/0]'' then
        (case clear self of
           (Returns u, self') \<Rightarrow> (Raises ZeroDivisionError, self')
         | (Raises e, self') \<Rightarrow> (Raises e, self')
         | (NoReturn, self') \<Rightarrow> (NoReturn, self'))
      else if expression = ''type('X', (), {'__str__': lambda s: 1/0})()'' then
        (Returns XObj, self)
      else if expression = ''setattr(self, 'result_var', None)'' then
        (Returns NoneObj, self\<lparr>var_bound := False\<rparr>)
      else (Raises SyntaxError, self))"

fun str_sample :: "pyobj \<Rightarrow> SimpleGUI \<Rightarrow> (py_error, string) outcome \<times> SimpleGUI" where
  "str_sample (IntObj n) self = (Returns (str_int n), self)"
| "str_sample NoneObj self = (Returns ''None'', self)"
| "str_sample XObj self = (Raises ZeroDivisionError, self)"

definition tk_sample :: "(SimpleGUI, py_error, pyobj, unit) env" where
  "tk_sample =
     \<lparr>var_get = (\<lambda>self. if var_bound self then (Returns (var_text self), self)
                        else (Raises AttributeError, self)),
      py_eval = eval_sample,
      set_lookup = (\<lambda>self. if var_bound self then (Returns (), self)
                           else (Raises AttributeError, self)),
      py_str = str_sample,
      var_set = (\<lambda>setter text self. (Returns (), self\<lparr>var_text := text\<rparr>)),
      showerror = (\<lambda>title message self. (Returns (), self))\<rparr>"

section \<open>Properties of example.py\<close>

lemma foldl_add_acc: "foldl (+) (acc::int) xs = acc + sum_list xs"
  by (induction xs arbitrary: acc) simp_all

lemma py_sum_sum_list: "py_sum xs = sum_list xs"
  by (simp add: py_sum_def foldl_add_acc)

lemma sum_list_sort: "sum_list (sort xs) = sum_list (xs::int list)"
proof -
  have "sum_mset (mset (sort xs)) = sum_mset (mset xs)"
    by simp
  then show ?thesis
    by (simp only: sum_mset_sum_list)
qed

lemma val_add_all: "val (add_all c as) = val c + sum_list as"
  by (induction as arbitrary: c) (simp_all add: add_def)

text \<open>
  C4. After \<open>Calculator(v)\<close> and the calls \<open>add(a1)\<close>, ..., \<open>add(an)\<close> in order,
  \<open>get_value\<close> returns \<open>v + a1 + ... + an\<close>.
\<close>

theorem calculator_adds_up:
  "get_value (add_all (Calculator_init v) as) = v + sum_list as"
  by (simp add: get_value_def val_add_all Calculator_init_def)

text \<open>
  C5. \<open>process_list ns\<close> returns the arithmetic sum of the elements of \<open>ns\<close>; summing
  the list as sorted by the call gives the same value as summing the original list.
\<close>

theorem process_list_sum:
  "fst (process_list ns) = sum_list ns \<and> py_sum (snd (process_list ns)) = py_sum ns"
  by (simp add: process_list_def Let_def py_sum_sum_list sum_list_sort)

text \<open>
  C8. \<open>process_list\<close> mutates its argument: after the call the caller's list holds the
  ascending sorted permutation of its original contents.
\<close>

theorem process_list_sorts_argument:
  "sorted (snd (process_list ns)) \<and> mset (snd (process_list ns)) = mset ns"
  by (simp add: process_list_def Let_def)

section \<open>Properties of true division\<close>

lemma pow2_powi: "pow2 e = 2 powi e"
  by (simp add: pow2_def power_int_def inverse_eq_divide power_one_over)

lemma pow2_pos: "0 < pow2 e"
  by (simp add: pow2_powi)

lemma pow2_add: "pow2 (a + b) = pow2 a * pow2 b"
  by (simp add: pow2_powi power_int_add)

lemma pow2_nat: "pow2 (int k) = 2 ^ k"
  by (simp add: pow2_def)

lemma pow2_mono: "a \<le> b \<Longrightarrow> pow2 a \<le> pow2 b"
  by (simp add: pow2_powi power_int_increasing)

lemma pow2_strict_mono: "a < b \<Longrightarrow> pow2 a < pow2 b"
  by (simp add: pow2_powi power_int_strict_increasing)

lemma pow2_minus: "pow2 (- a) = 1 / pow2 a"
  by (simp add: pow2_powi power_int_minus inverse_eq_divide)

lemma rne_div_cases:
  "rne_div n d = n div d \<or> rne_div n d = n div d + 1"
  by (simp add: rne_div_def Let_def)

lemma rne_div_near:
  assumes "0 < d"
  shows "\<bar>of_int (rne_div n d) - (of_int n / of_int d :: rat)\<bar> \<le> 1 / 2"
proof -
  define q r where "q = n div d" and "r = n mod d"
  have n: "n = q * d + r" and r: "0 \<le> r" "r < d"
    using assms by (simp_all add: q_def r_def)
  have dpos: "(0::rat) < of_int d" using assms by simp
  have quot: "(of_int n / of_int d :: rat) = of_int q + of_int r / of_int d"
    using dpos by (simp add: n field_simps)
  have frac: "(of_int r / of_int d :: rat) < 1" "(0::rat) \<le> of_int r / of_int d"
    using r dpos by simp_all
  show ?thesis
  proof (cases "2 * r < d")
    case True
    then have "rne_div n d = q" by (simp add: rne_div_def Let_def q_def r_def)
    moreover have "(of_int r / of_int d :: rat) \<le> 1 / 2"
    proof -
      have "(of_int (2 * r) :: rat) \<le> of_int d" using True by (simp only: of_int_le_iff)
      then show ?thesis using dpos by (simp add: field_simps)
    qed
    ultimately show ?thesis using frac by (simp add: quot)
  next
    case False
    show ?thesis
    proof (cases "d < 2 * r")
      case True
      then have "rne_div n d = q + 1" using False by (simp add: rne_div_def Let_def q_def r_def)
      moreover have "(1 / 2 :: rat) \<le> of_int r / of_int d"
      proof -
        have "(of_int d :: rat) \<le> of_int (2 * r)" using True by (simp only: of_int_le_iff)
        then show ?thesis using dpos by (simp add: field_simps)
      qed
      ultimately show ?thesis using frac by (simp add: quot)
    next
      case F2: False
      with False have eq: "2 * r = d" by simp
      have "(of_int r / of_int d :: rat) = 1 / 2"
      proof -
        have "(of_int d :: rat) = of_int (2 * r)" using eq by simp
        then show ?thesis using dpos by (simp add: field_simps)
      qed
      note h = this
      have "rne_div n d = q \<or> rne_div n d = q + 1"
        using rne_div_cases by (simp add: q_def)
      then show ?thesis unfolding quot h by auto
    qed
  qed
qed

text \<open>Rounding reaches an even integer \<open>K\<close> exactly from \<open>K - 1 / 2\<close> on.\<close>

lemma rne_div_ge_even:
  assumes "0 < d" "even K"
  shows "K \<le> rne_div n d \<longleftrightarrow> (2 * K - 1) * d \<le> 2 * n"
proof -
  define q r where "q = n div d" and "r = n mod d"
  have n: "n = q * d + r" and r: "0 \<le> r" "r < d"
    using assms by (simp_all add: q_def r_def)
  have lhs: "(2 * K - 1) * d = 2 * (K * d) - d"
    by (simp add: algebra_simps)
  have rhs: "2 * n = 2 * (q * d) + 2 * r"
    by (simp add: n)
  consider "K \<le> q" | "q = K - 1" | "q \<le> K - 2" by linarith
  then show ?thesis
  proof cases
    case 1
    then have "K * d \<le> q * d" using assms by (simp add: mult_right_mono)
    then have "(2 * K - 1) * d \<le> 2 * n" unfolding lhs rhs using r assms by linarith
    moreover have "K \<le> rne_div n d" using 1 rne_div_cases [of n d] by (auto simp: q_def)
    ultimately show ?thesis by simp
  next
    case 2
    then have odd: "odd q" using assms by simp
    have "rne_div n d = (if 2 * r < d then q else q + 1)"
      using odd by (auto simp: rne_div_def Let_def q_def r_def)
    moreover have "(2 * K - 1) * d \<le> 2 * n \<longleftrightarrow> d \<le> 2 * r"
    proof -
      have "q * d = K * d - d" by (simp add: 2 algebra_simps)
      then show ?thesis unfolding lhs rhs by linarith
    qed
    ultimately show ?thesis using 2 by auto
  next
    case 3
    then have "q * d \<le> (K - 2) * d" using assms by (simp add: mult_right_mono)
    moreover have "(K - 2) * d = K * d - 2 * d" by (simp add: algebra_simps)
    ultimately have "2 * n < (2 * K - 1) * d" unfolding lhs rhs using r assms by linarith
    moreover have "rne_div n d < K" using 3 rne_div_cases [of n d] by (auto simp: q_def)
    ultimately show ?thesis by simp
  qed
qed


lemma ilog2_quot_bounds:
  assumes "0 < n" "0 < d"
  shows "pow2 (ilog2_quot n d) * of_int d \<le> of_int n"
    and "of_int n < pow2 (ilog2_quot n d + 1) * of_int d"
proof -
  define bn bd where "bn = bitlen n" and "bd = bitlen d"
  have bn1: "1 \<le> bn" and bd1: "1 \<le> bd"
    using assms bitlen_eq_zero_iff [of n] bitlen_eq_zero_iff [of d] bitlen_nonneg [of n]
      bitlen_nonneg [of d] by (auto simp: bn_def bd_def)
  have nb: "pow2 (bn - 1) \<le> of_int n" "of_int n < pow2 bn"
    and db: "pow2 (bd - 1) \<le> of_int d" "of_int d < pow2 bd"
  proof -
    have "(2::int) ^ nat (bn - 1) \<le> n" "n < 2 ^ nat bn"
      using bitlen_bounds [OF assms(1)] by (simp_all add: bn_def)
    then have "(of_int ((2::int) ^ nat (bn - 1)) :: rat) \<le> of_int n"
      "(of_int n :: rat) < of_int (2 ^ nat bn)"
      by (simp_all only: of_int_le_iff of_int_less_iff)
    then show "pow2 (bn - 1) \<le> of_int n" "of_int n < pow2 bn"
      using bn1 by (simp_all add: pow2_def)
    have "(2::int) ^ nat (bd - 1) \<le> d" "d < 2 ^ nat bd"
      using bitlen_bounds [OF assms(2)] by (simp_all add: bd_def)
    then have "(of_int ((2::int) ^ nat (bd - 1)) :: rat) \<le> of_int d"
      "(of_int d :: rat) < of_int (2 ^ nat bd)"
      by (simp_all only: of_int_le_iff of_int_less_iff)
    then show "pow2 (bd - 1) \<le> of_int d" "of_int d < pow2 bd"
      using bd1 by (simp_all add: pow2_def)
  qed
  define e0 where "e0 = bn - bd"
  have up: "(of_int n :: rat) < pow2 (e0 + 1) * of_int d"
  proof -
    have "pow2 bn = pow2 (e0 + 1) * pow2 (bd - 1)"
      by (simp add: e0_def pow2_add [symmetric])
    also have "\<dots> \<le> pow2 (e0 + 1) * of_int d"
      using db(1) pow2_pos [of "e0 + 1"] by (simp add: mult_left_mono)
    finally show ?thesis using nb(2) by simp
  qed
  have lo: "pow2 (e0 - 1) * of_int d \<le> (of_int n :: rat)"
  proof -
    have "pow2 (e0 - 1) * of_int d \<le> pow2 (e0 - 1) * pow2 bd"
      using db(2) pow2_pos [of "e0 - 1"] by (simp add: mult_left_mono)
    also have "\<dots> = pow2 (bn - 1)"
      by (simp add: e0_def pow2_add [symmetric])
    finally show ?thesis using nb(1) by simp
  qed
  show "pow2 (ilog2_quot n d) * of_int d \<le> of_int n"
    using lo by (simp add: ilog2_quot_def Let_def bn_def [symmetric] bd_def [symmetric] e0_def [symmetric])
  show "of_int n < pow2 (ilog2_quot n d + 1) * of_int d"
    using up by (simp add: ilog2_quot_def Let_def bn_def [symmetric] bd_def [symmetric] e0_def [symmetric] not_le)
qed

lemma round_at_scaled:
  assumes "0 < d"
  shows "0 < (scale_den u d)"
    and "(of_int (scale_num u n) :: rat)
           / of_int (scale_den u d)
         = of_int n / of_int d / pow2 u"
  using assms by (simp_all add: pow2_def scale_num_def scale_den_def)

lemma round_at_near:
  assumes "0 < d"
  shows "\<bar>round_at u n d - of_int n / of_int d\<bar> \<le> pow2 u / 2"
proof -
  let ?num = "scale_num u n"
  let ?den = "scale_den u d"
  have "\<bar>of_int (rne_div ?num ?den) - (of_int ?num / of_int ?den :: rat)\<bar> \<le> 1 / 2"
    using round_at_scaled(1) [OF assms] by (rule rne_div_near)
  then have "\<bar>of_int (rne_div ?num ?den) - of_int n / of_int d / pow2 u\<bar> \<le> 1 / 2"
    by (simp only: round_at_scaled(2) [OF assms])
  then have "\<bar>of_int (rne_div ?num ?den) - of_int n / of_int d / pow2 u\<bar> * pow2 u \<le> 1 / 2 * pow2 u"
    using pow2_pos [of u] by (simp only: mult_le_cancel_right) simp
  moreover have "\<bar>of_int (rne_div ?num ?den) - of_int n / of_int d / pow2 u\<bar> * pow2 u
      = \<bar>round_at u n d - of_int n / of_int d\<bar>"
  proof -
    have "\<bar>of_int (rne_div ?num ?den) - of_int n / of_int d / pow2 u\<bar> * pow2 u
      = \<bar>(of_int (rne_div ?num ?den) - of_int n / of_int d / pow2 u) * pow2 u\<bar>"
      using pow2_pos [of u] by (simp add: abs_mult)
    also have "(of_int (rne_div ?num ?den) - of_int n / of_int d / pow2 u) * pow2 u
      = round_at u n d - of_int n / of_int d"
      using pow2_pos [of u] by (simp add: round_at_def left_diff_distrib)
    finally show ?thesis .
  qed
  ultimately show ?thesis by simp
qed

lemma rne_div_le: "0 < d \<Longrightarrow> n < K * d \<Longrightarrow> rne_div n d \<le> K"
proof -
  assume d: "0 < d" and lt: "n < K * d"
  define q r where "q = n div d" and "r = n mod d"
  have n: "n = q * d + r" and r: "0 \<le> r" "r < d"
    using d by (simp_all add: q_def r_def)
  from lt n r have "q * d < K * d" by linarith
  then have "q < K"
    using d by (simp add: mult_less_cancel_right)
  then show ?thesis
    using rne_div_cases [of n d] by (auto simp: q_def)
qed

lemma rne_div_ge: "0 < d \<Longrightarrow> K * d \<le> n \<Longrightarrow> K \<le> rne_div n d"
proof -
  assume d: "0 < d" and le: "K * d \<le> n"
  define q r where "q = n div d" and "r = n mod d"
  have n: "n = q * d + r" and r: "0 \<le> r" "r < d"
    using d by (simp_all add: q_def r_def)
  have "(q + 1) * d = q * d + d" by (simp add: algebra_simps)
  with le n r have "K * d < (q + 1) * d" by linarith
  then have "K < q + 1"
    using d by (simp add: mult_less_cancel_right)
  then show ?thesis
    using rne_div_cases [of n d] by (auto simp: q_def)
qed

lemma rne_div_exact: "0 < d \<Longrightarrow> rne_div (k * d) d = k"
  by (simp add: rne_div_def Let_def)

lemma scaled_less_iff:
  assumes "0 < d"
  shows "((of_int n :: rat) < of_int K * pow2 u * of_int d) \<longleftrightarrow>
         (scale_num u n) < K * (scale_den u d)"
proof (cases "0 \<le> u")
  case True
  have "((of_int n :: rat) < of_int (K * (d * 2 ^ nat u))) \<longleftrightarrow> n < K * (d * 2 ^ nat u)"
    by (simp only: of_int_less_iff)
  then show ?thesis using True by (simp add: pow2_def scale_num_def scale_den_def ac_simps)
next
  case False
  have "((of_int (n * 2 ^ nat (- u)) :: rat) < of_int (K * d)) \<longleftrightarrow> n * 2 ^ nat (- u) < K * d"
    by (simp only: of_int_less_iff)
  then show ?thesis using False by (simp add: pow2_def scale_num_def scale_den_def field_simps)
qed

lemma scaled_eq_iff:
  assumes "0 < d"
  shows "((of_int n :: rat) = of_int K * pow2 u * of_int d) \<longleftrightarrow>
         scale_num u n = K * scale_den u d"
proof (cases "0 \<le> u")
  case True
  have "((of_int n :: rat) = of_int (K * (d * 2 ^ nat u))) \<longleftrightarrow> n = K * (d * 2 ^ nat u)"
    by (simp only: of_int_eq_iff)
  then show ?thesis using True by (simp add: pow2_def scale_num_def scale_den_def ac_simps)
next
  case False
  have "((of_int (n * 2 ^ nat (- u)) :: rat) = of_int (K * d)) \<longleftrightarrow> n * 2 ^ nat (- u) = K * d"
    by (simp only: of_int_eq_iff)
  then show ?thesis using False by (simp add: pow2_def scale_num_def scale_den_def field_simps)
qed

lemma scale_num_double: "scale_num u (2 * n) = 2 * scale_num u n"
  by (simp add: scale_num_def)

lemma scaled_le_iff:
  assumes "0 < d"
  shows "(of_int K * pow2 u * of_int d \<le> (of_int n :: rat)) \<longleftrightarrow>
         K * (scale_den u d) \<le> (scale_num u n)"
  using scaled_less_iff [OF assms, of n K u] by (simp only: not_less [symmetric])

lemma round_at_le:
  assumes "0 < d" "of_int n < of_int K * pow2 u * of_int d"
  shows "round_at u n d \<le> of_int K * pow2 u"
proof -
  have "rne_div (scale_num u n) (scale_den u d) \<le> K"
    using round_at_scaled(1) [OF assms(1)] assms(2) scaled_less_iff [OF assms(1), of n K u]
    by (intro rne_div_le) simp_all
  then show ?thesis
    using pow2_pos [of u] by (simp add: round_at_def)
qed

lemma round_at_ge:
  assumes "0 < d" "of_int K * pow2 u * of_int d \<le> of_int n"
  shows "of_int K * pow2 u \<le> round_at u n d"
proof -
  have "K \<le> rne_div (scale_num u n) (scale_den u d)"
    using round_at_scaled(1) [OF assms(1)] assms(2) scaled_le_iff [OF assms(1), of K u n]
    by (intro rne_div_ge) simp_all
  then show ?thesis
    using pow2_pos [of u] by (simp add: round_at_def)
qed

lemma round_at_ge_even:
  assumes "0 < d" "even K"
  shows "(of_int K * pow2 u \<le> round_at u n d) \<longleftrightarrow>
         (of_int (2 * K - 1) * pow2 u * of_int d \<le> (of_int (2 * n) :: rat))"
proof -
  let ?num = "scale_num u n"
  let ?den = "scale_den u d"
  have "(of_int K * pow2 u \<le> round_at u n d) \<longleftrightarrow> K \<le> rne_div ?num ?den"
    using pow2_pos [of u] by (simp add: round_at_def)
  also have "\<dots> \<longleftrightarrow> (2 * K - 1) * ?den \<le> 2 * ?num"
    using round_at_scaled(1) [OF assms(1)] assms(2) by (rule rne_div_ge_even)
  also have "\<dots> \<longleftrightarrow> (of_int (2 * K - 1) * pow2 u * of_int d \<le> (of_int (2 * n) :: rat))"
    using scaled_le_iff [OF assms(1), of "2 * K - 1" u "2 * n"]
    by (simp only: scale_num_double)
  finally show ?thesis .
qed

lemma round_at_exact:
  assumes "0 < d" "(of_int n :: rat) = of_int k * pow2 u * of_int d"
  shows "round_at u n d = of_int k * pow2 u"
proof -
  have "scale_num u n = k * scale_den u d"
    using scaled_eq_iff [OF assms(1), of n k u] assms(2) by simp
  then have "rne_div (scale_num u n) (scale_den u d) = k"
    using round_at_scaled(1) [OF assms(1), of u] rne_div_exact [of "scale_den u d" k] by simp
  then show ?thesis by (simp add: round_at_def)
qed

lemma pow2_numeral: "pow2 (numeral k) = 2 ^ numeral k"
  by (simp add: pow2_def)

lemma of_int_pow2: "(of_int (2 ^ k) :: rat) * pow2 u = pow2 (u + int k)"
  by (simp add: pow2_add pow2_nat)

lemma threshold_rat:
  "(of_int (2 ^ 1024 - 2 ^ 970) :: rat) = pow2 1024 - pow2 970"
  by (simp add: pow2_numeral)

lemma threshold_double:
  "(of_int (2 * 2 ^ 53 - 1) :: rat) * pow2 971 = 2 * (pow2 1024 - pow2 970)"
proof -
  have "(of_int (2 * 2 ^ 53 - 1) :: rat) = pow2 54 - 1"
    by (simp add: pow2_numeral)
  moreover have "pow2 54 * pow2 971 = pow2 1025" "pow2 1025 = 2 * pow2 1024" "pow2 971 = 2 * pow2 970"
    by (simp_all add: pow2_add [symmetric] pow2_powi)
  ultimately show ?thesis
    by (simp add: algebra_simps)
qed

lemma threshold_bounds:
  "pow2 1023 \<le> pow2 1024 - pow2 970" "pow2 1024 - pow2 970 \<le> pow2 1024"
proof -
  have "pow2 1024 = 2 * pow2 1023" by (simp add: pow2_powi)
  moreover have "pow2 970 \<le> pow2 1023" by (rule pow2_mono) simp
  ultimately show "pow2 1023 \<le> pow2 1024 - pow2 970" by simp
  show "pow2 1024 - pow2 970 \<le> pow2 1024" using pow2_pos [of 970] by simp
qed

lemma double_of_quot_overflow_iff:
  assumes "0 \<le> n" "0 < d"
  shows "(2 ^ 1024 \<le> double_of_quot n d) \<longleftrightarrow> ((2 ^ 1024 - 2 ^ 970) * d \<le> n)"
proof -
  define T :: rat where "T = pow2 1024 - pow2 970"
  have Tpos: "0 < T" using threshold_bounds(1) pow2_pos [of 1023] by (simp add: T_def)
  have dpos: "(0::rat) < of_int d" using assms by simp
  have rhs: "((2 ^ 1024 - 2 ^ 970) * d \<le> n) \<longleftrightarrow> (T * of_int d \<le> of_int n)"
  proof -
    have "((2 ^ 1024 - 2 ^ 970) * d \<le> n) \<longleftrightarrow> ((of_int ((2 ^ 1024 - 2 ^ 970) * d) :: rat) \<le> of_int n)"
      by (simp only: of_int_le_iff)
    also have "(of_int ((2 ^ 1024 - 2 ^ 970) * d) :: rat) = T * of_int d"
      by (simp only: of_int_mult threshold_rat T_def)
    finally show ?thesis .
  qed
  have lhs: "(2 ^ 1024 \<le> double_of_quot n d) \<longleftrightarrow> (pow2 1024 \<le> double_of_quot n d)"
    by (simp only: pow2_numeral)
  show ?thesis
  proof (cases "n = 0")
    case True
    have "\<not> T * of_int d \<le> 0" using Tpos dpos by (simp add: mult_le_0_iff)
    moreover have "\<not> pow2 1024 \<le> 0" using pow2_pos [of 1024] by simp
    ultimately show ?thesis unfolding rhs lhs by (simp add: True double_of_quot_def)
  next
    case False
    with assms have npos: "0 < n" by simp
    define e where "e = ilog2_quot n d"
    define u where "u = max (e - 52) (- 1074)"
    have x: "double_of_quot n d = round_at u n d"
      using False by (simp add: double_of_quot_def u_def e_def)
    have lo: "pow2 e * of_int d \<le> of_int n" and up: "of_int n < pow2 (e + 1) * of_int d"
      using ilog2_quot_bounds [OF npos assms(2)] by (simp_all add: e_def)
    consider "1024 \<le> e" | "e \<le> 1022" | "e = 1023" by linarith
    then show ?thesis
    proof cases
      case 1
      then have u: "u = e - 52" by (simp add: u_def)
      have "of_int (2 ^ 52) * pow2 u = pow2 (u + 52)"
        using of_int_pow2 [of 52 u] by (simp only: of_nat_numeral)
      then have "of_int (2 ^ 52) * pow2 u = pow2 e"
        by (simp add: u)
      then have "pow2 e \<le> round_at u n d"
        using round_at_ge [OF assms(2), of "2 ^ 52" u n] lo by simp
      moreover have "pow2 1024 \<le> pow2 e" using 1 by (rule pow2_mono)
      ultimately have "pow2 1024 \<le> double_of_quot n d" by (simp add: x)
      moreover have "T * of_int d \<le> of_int n"
      proof -
        have "T * of_int d \<le> pow2 1024 * of_int d"
          using threshold_bounds(2) dpos by (simp add: T_def mult_right_mono)
        also have "\<dots> \<le> pow2 e * of_int d"
          using \<open>pow2 1024 \<le> pow2 e\<close> dpos by (simp add: mult_right_mono)
        finally show ?thesis using lo by simp
      qed
      ultimately show ?thesis unfolding rhs lhs by simp
    next
      case 2
      have u53: "e + 1 \<le> u + 53" "u + 53 \<le> 1023" using 2 by (simp_all add: u_def)
      have k: "of_int (2 ^ 53) * pow2 u = pow2 (u + 53)"
        using of_int_pow2 [of 53 u] by (simp only: of_nat_numeral)
      have "of_int n < pow2 (u + 53) * of_int d"
      proof -
        have "pow2 (e + 1) * of_int d \<le> pow2 (u + 53) * of_int d"
          using pow2_mono [OF u53(1)] dpos by (simp add: mult_right_mono)
        with up show ?thesis by simp
      qed
      then have "round_at u n d \<le> pow2 (u + 53)"
        using round_at_le [OF assms(2), of n "2 ^ 53" u] by (simp only: k)
      also have "\<dots> \<le> pow2 1023" using u53(2) by (rule pow2_mono)
      also have "\<dots> < pow2 1024" by (rule pow2_strict_mono) simp
      finally have "\<not> pow2 1024 \<le> double_of_quot n d" by (simp add: x)
      moreover have "\<not> T * of_int d \<le> of_int n"
      proof -
        have "pow2 (e + 1) \<le> pow2 1023" using 2 by (intro pow2_mono) simp
        also have "\<dots> \<le> T" using threshold_bounds(1) by (simp add: T_def)
        finally have "pow2 (e + 1) * of_int d \<le> T * of_int d"
          using dpos by (simp add: mult_right_mono)
        with up show ?thesis by simp
      qed
      ultimately show ?thesis unfolding rhs lhs by simp
    next
      case 3
      then have u: "u = 971" by (simp add: u_def)
      have "of_int (2 ^ 53) * pow2 971 = pow2 (971 + 53)"
        using of_int_pow2 [of 53 971] by (simp only: of_nat_numeral)
      then have k: "of_int (2 ^ 53) * pow2 971 = pow2 1024"
        by simp
      have "(pow2 1024 \<le> round_at 971 n d) \<longleftrightarrow>
            (of_int (2 * 2 ^ 53 - 1) * pow2 971 * of_int d \<le> (of_int (2 * n) :: rat))"
        using round_at_ge_even [OF assms(2), of "2 ^ 53" 971 n] by (simp only: k) simp
      also have "\<dots> \<longleftrightarrow> (2 * (T * of_int d) \<le> 2 * (of_int n :: rat))"
        by (simp only: threshold_double T_def [symmetric] of_int_mult) (simp add: mult.assoc)
      also have "\<dots> \<longleftrightarrow> (T * of_int d \<le> of_int n)" by simp
      finally show ?thesis unfolding rhs lhs by (simp add: x u)
    qed
  qed
qed

lemma py_truediv_overflow_iff:
  assumes "b \<noteq> 0"
  shows "(py_truediv a b = Inl OverflowError) \<longleftrightarrow> ((2 ^ 1024 - 2 ^ 970) * \<bar>b\<bar> \<le> \<bar>a\<bar>)"
proof -
  have "0 \<le> \<bar>a\<bar>" "0 < \<bar>b\<bar>" using assms by simp_all
  from double_of_quot_overflow_iff [OF this] assms show ?thesis
    by (simp add: py_truediv_def Let_def)
qed

lemma double_of_quot_accuracy:
  assumes "0 \<le> n" "0 < d"
  shows "\<bar>double_of_quot n d - of_int n / of_int d\<bar>
           \<le> max (of_int n / of_int d / 2 ^ 53) (1 / 2 ^ 1075)"
proof (cases "n = 0")
  case True
  then show ?thesis by (simp add: double_of_quot_def)
next
  case False
  with assms have npos: "0 < n" by simp
  have dpos: "(0::rat) < of_int d" using assms by simp
  define e where "e = ilog2_quot n d"
  define u where "u = max (e - 52) (- 1074)"
  have x: "double_of_quot n d = round_at u n d"
    using False by (simp add: double_of_quot_def u_def e_def)
  have "pow2 e * of_int d \<le> of_int n"
    using ilog2_quot_bounds(1) [OF npos assms(2)] by (simp add: e_def)
  then have lo: "pow2 e \<le> of_int n / of_int d"
    using dpos by (simp add: pos_le_divide_eq)
  have near: "\<bar>double_of_quot n d - of_int n / of_int d\<bar> \<le> pow2 u / 2"
    unfolding x using assms(2) by (rule round_at_near)
  show ?thesis
  proof (cases "- 1074 \<le> e - 52")
    case True
    then have "u = e - 52" by (simp add: u_def)
    then have "pow2 u * pow2 52 = pow2 e"
      by (simp add: pow2_add [symmetric])
    moreover have "pow2 52 = 2 ^ 52"
      by (simp add: pow2_def)
    ultimately have "pow2 u / 2 = pow2 e / 2 ^ 53"
      by (simp add: field_simps)
    also have "\<dots> \<le> of_int n / of_int d / 2 ^ 53"
      using lo by (simp add: divide_right_mono)
    finally have "pow2 u / 2 \<le> of_int n / of_int d / 2 ^ 53" .
    with near have "\<bar>double_of_quot n d - of_int n / of_int d\<bar> \<le> of_int n / of_int d / 2 ^ 53"
      by (rule order_trans)
    then show ?thesis by (rule max.coboundedI1)
  next
    case False
    then have "u = - 1074" by (simp add: u_def)
    then have "pow2 u / 2 = 1 / 2 ^ 1075"
      by (simp add: pow2_def)
    with near have "\<bar>double_of_quot n d - of_int n / of_int d\<bar> \<le> 1 / 2 ^ 1075"
      by (simp only:)
    then show ?thesis by (rule max.coboundedI2)
  qed
qed

lemma pow2_le_imp_le: "pow2 a < pow2 b \<Longrightarrow> a < b"
  using pow2_mono [of b a] by (cases "a < b") simp_all

lemma double_of_quot_exact:
  assumes "0 < d" "0 \<le> k" "k < 2 ^ 53"
  shows "double_of_quot (k * d) d = of_int k"
proof (cases "k = 0")
  case True
  then show ?thesis by (simp add: double_of_quot_def)
next
  case False
  with assms have kpos: "0 < k" by simp
  then have npos: "0 < k * d" using assms(1) by simp
  have dpos: "(0::rat) < of_int d" using assms by simp
  define e where "e = ilog2_quot (k * d) d"
  define u where "u = max (e - 52) (- 1074)"
  have x: "double_of_quot (k * d) d = round_at u (k * d) d"
    using kpos assms(1) by (simp add: double_of_quot_def u_def e_def)
  have "pow2 e * of_int d \<le> of_int (k * d)"
    using ilog2_quot_bounds(1) [OF npos assms(1)] by (simp add: e_def)
  then have "pow2 e \<le> of_int k"
    using dpos by simp
  also have "(of_int k :: rat) < of_int (2 ^ 53)"
    using assms(3) by (simp only: of_int_less_iff)
  also have "(of_int (2 ^ 53) :: rat) = pow2 53"
    by (simp add: pow2_def)
  finally have "e < 53" by (rule pow2_le_imp_le)
  then have u0: "u \<le> 0" by (simp add: u_def)
  define m where "m = nat (- u)"
  have pu: "pow2 u = 1 / 2 ^ m"
    using u0 by (cases "u = 0") (simp_all add: pow2_def m_def)
  have "(of_int (k * d) :: rat) = of_int (k * 2 ^ m) * pow2 u * of_int d"
    by (simp add: pu)
  from round_at_exact [OF assms(1) this] show ?thesis
    by (simp add: x pu)
qed

lemma py_truediv_exact:
  assumes "b \<noteq> 0" "\<bar>k\<bar> < 2 ^ 53"
  shows "py_truediv (k * b) b = Inr (of_int k)"
proof -
  have x: "double_of_quot (abs (k * b)) (abs b) = of_int (abs k)"
    using double_of_quot_exact [of "abs b" "abs k"] assms by (simp add: abs_mult)
  have "(of_int \<bar>k\<bar> :: rat) < of_int (2 ^ 53)"
    using assms(2) by (simp only: of_int_less_iff)
  also have "(of_int (2 ^ 53) :: rat) \<le> 2 ^ 1024"
    by (simp add: power_increasing)
  finally have small: "\<not> (2 ^ 1024 \<le> (of_int \<bar>k\<bar> :: rat))" by simp
  have sign: "((k * b < 0) \<noteq> (b < 0)) \<longleftrightarrow> (k < 0 \<or> (k = 0 \<and> b < 0))"
    using assms(1) by (auto simp: mult_less_0_iff zero_less_mult_iff not_less
        mult_nonneg_nonpos mult_nonpos_nonneg mult_nonneg_nonneg mult_nonpos_nonpos)
  show ?thesis
    using assms(1) small
    by (simp only: py_truediv_def Let_def x sign) (auto simp: abs_if)
qed

lemma py_truediv_accuracy:
  assumes "b \<noteq> 0" "py_truediv a b = Inr q"
  shows "\<bar>q - of_int a / of_int b\<bar> \<le> max (\<bar>of_int a / of_int b\<bar> / 2 ^ 53) (1 / 2 ^ 1075)"
proof -
  define x where "x = double_of_quot \<bar>a\<bar> \<bar>b\<bar>"
  have acc: "\<bar>x - of_int \<bar>a\<bar> / of_int \<bar>b\<bar>\<bar>
      \<le> max (of_int \<bar>a\<bar> / of_int \<bar>b\<bar> / 2 ^ 53) (1 / 2 ^ 1075)"
    unfolding x_def using assms(1) by (intro double_of_quot_accuracy) simp_all
  have absq: "(of_int \<bar>a\<bar> / of_int \<bar>b\<bar> :: rat) = \<bar>of_int a / of_int b\<bar>"
    by simp
  have q: "q = (if (a < 0) \<noteq> (b < 0) then - x else x)"
    using assms by (simp add: py_truediv_def Let_def x_def split: if_splits)
  have "\<bar>q - of_int a / of_int b\<bar> = \<bar>x - \<bar>of_int a / of_int b\<bar>\<bar>"
  proof (cases "(a < 0) \<noteq> (b < 0)")
    case True
    then have "(of_int a / of_int b :: rat) \<le> 0"
      using assms(1) by (auto simp: divide_le_0_iff)
    then have "\<bar>of_int a / of_int b :: rat\<bar> = - (of_int a / of_int b)"
      by (simp only: abs_of_nonpos)
    then show ?thesis using True by (simp add: q abs_minus_commute)
  next
    case False
    then have "0 \<le> (of_int a / of_int b :: rat)"
      using assms(1) by (auto simp: zero_le_divide_iff)
    then have "\<bar>of_int a / of_int b :: rat\<bar> = of_int a / of_int b"
      by (simp only: abs_of_nonneg)
    then show ?thesis using False by (simp add: q)
  qed
  then show ?thesis using acc by (simp only: absq)
qed

section \<open>Properties of advanced_example.py\<close>

lemma process_loop_append:
  "process_loop items result = result @ map (\<lambda>x. 2 * x) (filter (\<lambda>x. 0 < x) items)"
  by (induction items arbitrary: result) simp_all

lemma fst_process_data:
  "fst (process_data self) = map (\<lambda>x. 2 * x) (filter (\<lambda>x. 0 < x) (data self))"
  by (simp add: process_data_def Let_def process_loop_append)

lemma snd_process_data:
  "snd (process_data self) = (if data self = [] then self else self\<lparr>processed := True\<rparr>)"
  by (simp add: process_data_def Let_def)

text \<open>
  C1. \<open>process_data\<close> returns the list of \<open>2 * x\<close> for the items \<open>x > 0\<close> of the data, in
  the order of the data, and the empty list when the data is empty.
\<close>

theorem process_data_doubles_positive:
  "fst (process_data self) = map (\<lambda>x. 2 * x) (filter (\<lambda>x. 0 < x) (data self)) \<and>
   fst (process_data (self\<lparr>data := []\<rparr>)) = []"
  by (simp add: fst_process_data)

text \<open>
  C7. The list returned by \<open>process_data\<close> is as long as the number of strictly positive
  items of the data.
\<close>

theorem process_data_length:
  "length (fst (process_data self)) = length (filter (\<lambda>x. 0 < x) (data self))"
  by (simp add: fst_process_data)

lemma foldl_max_Max:
  "foldl (\<lambda>maxval item. if item > maxval then item else maxval) (x::int) xs = Max (set (x # xs))"
proof (induction xs arbitrary: x)
  case Nil
  show ?case by simp
next
  case (Cons y ys)
  have "Max (set (x # y # ys)) = Max (set (max x y # ys))"
    by (cases "ys = []") (simp_all add: max.assoc)
  with Cons show ?case
    by (simp add: max_def)
qed

lemma py_max_Max: "xs \<noteq> [] \<Longrightarrow> py_max xs = Inr (Max (set xs))"
proof (cases xs)
  case Nil
  assume "xs \<noteq> []"
  with Nil show ?thesis by simp
next
  case (Cons y ys)
  then show ?thesis
    by (simp only: py_max.simps foldl_max_Max)
qed

lemma py_truediv_error:
  "b \<noteq> 0 \<Longrightarrow> py_truediv a b = Inl e \<Longrightarrow> e = OverflowError"
  by (auto simp: py_truediv_def Let_def split: if_splits)

lemma snd_get_statistics:
  "snd (get_statistics self) =
     (if processed self \<or> data self = [] then self else self\<lparr>processed := True\<rparr>)"
  by (auto simp: get_statistics_def Let_def snd_process_data split: sum.splits)

text \<open>The float \<^verbatim>\<open>1 / 3\<close> is \<open>0x1.5555555555555p-2\<close>: the quotient is rounded.\<close>

lemma py_truediv_third: "py_truediv 1 3 = Inr (6004799503160661 / 2 ^ 54)"
  by code_simp

lemma py_truediv_huge: "py_truediv (2 ^ 1024) 1 = Inl OverflowError"
  using py_truediv_overflow_iff [of 1 "2 ^ 1024"] by simp

text \<open>
  C2, as stated, fails: the average is computed by true division, whose result is a
  double. With the single item \<open>2 ^ 1024\<close> the quotient is too large for a double, and
  \<open>get_statistics\<close> raises \<open>OverflowError\<close> instead of returning a summary.
\<close>

theorem get_statistics_overflow_counterexample:
  "fst (get_statistics (add_item (DataProcessor_init ''p'') (2 ^ 1024))) = Inl OverflowError"
  using py_truediv_huge
  by (simp add: get_statistics_def Let_def add_item_def DataProcessor_init_def
      snd_process_data py_sum_def)

text \<open>
  C2, amended. On empty data \<open>get_statistics\<close> returns total 0, count 0, average 0 and
  max 0. On non-empty data, when the absolute value of the sum is at least
  \<open>(2 ^ 1024 - 2 ^ 970) * count\<close> the quotient is too large for a double and
  \<open>get_statistics\<close> raises \<open>OverflowError\<close>. Otherwise it returns the sum of the data as
  total, its length as count, its maximum as max, and as average the float
  \<^verbatim>\<open>total / count\<close>, which differs from the exact quotient by at most its \<open>2 ^ 53\<close>th
  part (or by \<open>1 / 2 ^ 1075\<close>, for a quotient below the normal range of doubles).
\<close>

theorem get_statistics_summary:
  "fst (get_statistics self) =
     (if data self = []
      then Inr [''total'' \<mapsto> PyInt 0, ''count'' \<mapsto> PyInt 0,
                ''average'' \<mapsto> PyInt 0, ''max'' \<mapsto> PyInt 0]
      else if (2 ^ 1024 - 2 ^ 970) * int (length (data self)) \<le> abs (sum_list (data self))
      then Inl OverflowError
      else Inr [''total'' \<mapsto> PyInt (sum_list (data self)),
                ''count'' \<mapsto> PyInt (int (length (data self))),
                ''average'' \<mapsto>
                   PyFloat (projr (py_truediv (sum_list (data self)) (int (length (data self))))),
                ''max'' \<mapsto> PyInt (Max (set (data self)))]) \<and>
   (data self \<noteq> [] \<and>
    \<not> (2 ^ 1024 - 2 ^ 970) * int (length (data self)) \<le> abs (sum_list (data self)) \<longrightarrow>
      abs (projr (py_truediv (sum_list (data self)) (int (length (data self))))
           - of_int (sum_list (data self)) / of_int (int (length (data self))))
        \<le> max (abs (of_int (sum_list (data self)) / of_int (int (length (data self)))) / 2 ^ 53)
              (1 / 2 ^ 1075))"
proof (cases "data self = []")
  case True
  then show ?thesis
    by (simp add: get_statistics_def Let_def snd_process_data py_sum_sum_list)
next
  case False
  define total where "total = sum_list (data self)"
  define count where "count = int (length (data self))"
  let ?s1 = "if \<not> processed self then snd (process_data self) else self"
  have d: "data ?s1 = data self"
    by (simp add: snd_process_data)
  have n: "count > 0" "count \<noteq> 0" "abs count = count"
    using False by (simp_all add: count_def)
  have ovf: "(py_truediv total count = Inl OverflowError) \<longleftrightarrow>
             ((2 ^ 1024 - 2 ^ 970) * count \<le> abs total)"
    using py_truediv_overflow_iff [OF n(2), of total] by (simp only: n(3))
  show ?thesis
  proof (cases "(2 ^ 1024 - 2 ^ 970) * count \<le> abs total")
    case True
    then have "py_truediv total count = Inl OverflowError"
      by (simp only: ovf)
    with False True n show ?thesis
      unfolding get_statistics_def Let_def d py_sum_sum_list total_def [symmetric]
        count_def [symmetric]
      by simp
  next
    case no: False
    obtain q where q: "py_truediv total count = Inr q"
    proof (cases "py_truediv total count")
      case (Inl e)
      then have "e = OverflowError"
        using py_truediv_error n(2) by blast
      with Inl no ovf show ?thesis by simp
    next
      case (Inr q)
      then show ?thesis by (rule that)
    qed
    have acc: "abs (q - of_int total / of_int count)
        \<le> max (abs (of_int total / of_int count) / 2 ^ 53) (1 / 2 ^ 1075)"
      using n(2) q by (rule py_truediv_accuracy)
    have mx: "py_max (data self) = Inr (Max (set (data self)))"
      using False by (rule py_max_Max)
    have res: "fst (get_statistics self) =
        Inr [''total'' \<mapsto> PyInt total, ''count'' \<mapsto> PyInt count,
             ''average'' \<mapsto> PyFloat q, ''max'' \<mapsto> PyInt (Max (set (data self)))]"
      using False n q mx
      unfolding get_statistics_def Let_def d py_sum_sum_list total_def [symmetric]
        count_def [symmetric]
      by simp
    from res acc False no show ?thesis
      unfolding total_def [symmetric] count_def [symmetric] q
      by simp
  qed
qed

theorem get_statistics_summary_witness:
  "data (create_processor ''Main Processor'' (Some [1, 2, 3, 4, 5])) \<noteq> [] \<and>
   \<not> (2 ^ 1024 - 2 ^ 970) * int (length [1, 2, 3, 4, 5 :: int]) \<le> abs (sum_list [1, 2, 3, 4, 5]) \<and>
   fst (get_statistics (create_processor ''Main Processor'' (Some [1, 2, 3, 4, 5]))) =
     Inr [''total'' \<mapsto> PyInt 15, ''count'' \<mapsto> PyInt 5,
          ''average'' \<mapsto> PyFloat 3, ''max'' \<mapsto> PyInt 5]"
proof -
  have d: "data (create_processor ''Main Processor'' (Some [1, 2, 3, 4, 5])) = [1, 2, 3, 4, 5]"
    by (simp add: create_processor_def add_item_def DataProcessor_init_def)
  have q: "py_truediv 15 5 = Inr 3"
    using py_truediv_exact [of 5 3] by simp
  from get_statistics_summary [of "create_processor ''Main Processor'' (Some [1, 2, 3, 4, 5])"]
  show ?thesis
    by (simp add: d q)
qed

text \<open>
  C10. On a processor with empty data \<open>get_statistics\<close> does not raise: it returns the
  summary with total 0, count 0, average 0 and max 0, and leaves the processor as it is.
\<close>

theorem get_statistics_empty:
  "data self = [] \<Longrightarrow>
   get_statistics self =
     (Inr [''total'' \<mapsto> PyInt 0, ''count'' \<mapsto> PyInt 0,
           ''average'' \<mapsto> PyInt 0, ''max'' \<mapsto> PyInt 0], self)"
  by (simp add: get_statistics_def Let_def snd_process_data py_sum_def)

theorem get_statistics_empty_witness:
  "data (DataProcessor_init ''p'') = [] \<and>
   get_statistics (DataProcessor_init ''p'') =
     (Inr [''total'' \<mapsto> PyInt 0, ''count'' \<mapsto> PyInt 0,
           ''average'' \<mapsto> PyInt 0, ''max'' \<mapsto> PyInt 0], DataProcessor_init ''p'')"
proof -
  have d: "data (DataProcessor_init ''p'') = []"
    by (simp add: DataProcessor_init_def)
  from d get_statistics_empty [OF d] show ?thesis by simp
qed

subsection \<open>The flag \<open>processed\<close>\<close>

lemma data_do_call:
  "data (do_call self c) = (case c of AddItem item \<Rightarrow> data self @ [item] | _ \<Rightarrow> data self)"
  by (cases c) (simp_all add: add_item_def snd_process_data snd_get_statistics)

lemma processed_do_call:
  "processed (do_call self c) = (processed self \<or> (is_compute c \<and> data self \<noteq> []))"
  by (cases c) (simp_all add: add_item_def snd_process_data snd_get_statistics)

lemma processed_foldl_nonempty:
  "data self \<noteq> [] \<Longrightarrow>
   processed (foldl do_call self calls) = (processed self \<or> list_ex is_compute calls)"
proof (induction calls arbitrary: self)
  case Nil
  show ?case by simp
next
  case (Cons c calls)
  have "data (do_call self c) \<noteq> []"
    using Cons.prems by (simp add: data_do_call split: call.splits)
  from Cons.IH [OF this] Cons.prems show ?case
    by (auto simp: processed_do_call)
qed

lemma processed_foldl_empty:
  "data self = [] \<Longrightarrow>
   processed (foldl do_call self calls) = (processed self \<or> computed_on_data calls)"
proof (induction calls arbitrary: self)
  case Nil
  show ?case by simp
next
  case (Cons c calls)
  show ?case
  proof (cases c)
    case (AddItem item)
    have "data (do_call self c) \<noteq> []"
      by (simp add: AddItem add_item_def)
    from processed_foldl_nonempty [OF this] show ?thesis
      by (simp add: AddItem add_item_def)
  next
    case ProcessData
    have "data (do_call self c) = []"
      using Cons.prems by (simp add: ProcessData snd_process_data)
    from Cons.IH [OF this] Cons.prems show ?thesis
      by (simp add: ProcessData snd_process_data)
  next
    case GetStatistics
    have "data (do_call self c) = []"
      using Cons.prems by (simp add: GetStatistics snd_get_statistics)
    from Cons.IH [OF this] Cons.prems show ?thesis
      by (simp add: GetStatistics snd_get_statistics)
  qed
qed

text \<open>
  C3, as stated, fails: on a new processor \<open>get_statistics\<close> runs the computation and
  returns the summary, and \<open>processed\<close> is still \<open>False\<close>, since \<open>process_data\<close> returns
  before setting the flag when the data is empty.
\<close>

theorem processed_flag_counterexample:
  "summary_computed [GetStatistics] \<and> \<not> processed (run_calls ''p'' [GetStatistics])"
  by (simp add: summary_computed_def run_calls_def snd_get_statistics DataProcessor_init_def)

text \<open>
  C3, amended. In every state that a processor reaches from its construction by calls of
  its methods, \<open>processed\<close> is \<open>True\<close> if and only if \<open>process_data\<close> has run, directly or
  from \<open>get_statistics\<close>, at a moment when the data was not empty, that is after some
  call of \<open>add_item\<close>.
\<close>

theorem processed_iff_computed_on_data:
  "processed (run_calls nm calls) = computed_on_data calls"
  using processed_foldl_empty [of "DataProcessor_init nm" calls]
  by (simp add: run_calls_def DataProcessor_init_def)

theorem processed_iff_computed_on_data_witness:
  "processed (run_calls ''p'' [GetStatistics, AddItem 1, AddItem 2, GetStatistics]) \<and>
   \<not> processed (run_calls ''p'' [ProcessData, GetStatistics, AddItem 1])"
  by (simp add: processed_iff_computed_on_data)

section \<open>Properties of gui_example.py\<close>

lemmas calculate_defs =
  calculate_def calculate_body_def then_do_def try_except_def perform_def calls_of_def
  world_of_def

lemmas tk_sample_defs = tk_sample_def eval_sample_def window_def clear_def str_int_def

text \<open>
  C6, as stated, fails in its "only for those": the guard covers more than the
  evaluation. The evaluation of the text below succeeds and returns an object, the
  conversion of that object to a string raises, and the handler shows the dialog.
\<close>

theorem calculate_dialog_counterexample:
  "py_eval tk_sample ''type('X', (), {'__str__': lambda s: 1/0})()''
     (window ''type('X', (), {'__str__': lambda s: 1/0})()'') =
     (Returns XObj, window ''type('X', (), {'__str__': lambda s: 1/0})()'') \<and>
   ShowError ''Error'' ''Invalid expression''
     \<in> set (calls_of (calculate tk_sample
                         (window ''type('X', (), {'__str__': lambda s: 1/0})()'')))"
  by (simp add: calculate_defs tk_sample_defs)

text \<open>
  C6, amended. The guard of \<open>calculate\<close> covers the whole block: the read of the display
  variable, the evaluation of the text, the lookup of the variable's \<^verbatim>\<open>set\<close>, the
  conversion of the result to a string and the write of the display. When one of these
  calls raises, whatever the exception is, \<open>calculate\<close> calls
  \<^verbatim>\<open>messagebox.showerror("Error", "Invalid expression")\<close>, once; in every other case it
  makes no such call.
\<close>

theorem calculate_dialog:
  "filter is_showerror (calls_of (calculate env w)) =
     (if guarded_raises env w then [ShowError ''Error'' ''Invalid expression''] else [])"
  by (simp add: calculate_defs guarded_raises_def split: prod.splits outcome.splits)

theorem calculate_dialog_witness:
  "filter is_showerror (calls_of (calculate tk_sample (window ''1 + ''))) =
     [ShowError ''Error'' ''Invalid expression''] \<and>
   filter is_showerror (calls_of (calculate tk_sample
       (window ''setattr(self, 'result_var', None)''))) =
     [ShowError ''Error'' ''Invalid expression''] \<and>
   filter is_showerror (calls_of (calculate tk_sample (window ''1 + 2''))) = []"
  using calculate_dialog [of tk_sample "window ''1 + ''"]
    calculate_dialog [of tk_sample "window ''setattr(self, 'result_var', None)''"]
    calculate_dialog [of tk_sample "window ''1 + 2''"]
  by (simp add: guarded_raises_def tk_sample_defs)

text \<open>
  C9, as stated, fails: the evaluated text runs in the scope of \<open>calculate\<close> and can
  itself write the display before it raises. The text below clears the display and then
  divides by zero: its evaluation fails, and the display is no longer that text.
\<close>

theorem calculate_display_counterexample:
  "fst (py_eval tk_sample ''[self.clear(), 1/0]'' (window ''[self.clear(), 1/0]'')) =
     Raises ZeroDivisionError \<and>
   var_text (world_of (calculate tk_sample (window ''[self.clear(), 1/0]'')))
     \<noteq> ''[self.clear(), 1/0]''"
  by (simp add: calculate_defs tk_sample_defs)

text \<open>
  C9, amended. When the evaluation of the display text fails, \<open>calculate\<close> itself writes
  nothing: the calls it makes are the read of the display variable, the evaluation and
  the dialog of the handler, and it leaves the program as the evaluation and the dialog
  left it; so whatever is observed of the program (\<open>shown\<close>, the display) is unchanged
  when neither has changed it. \<open>calculate\<close> writes the display only with the string form
  of the result, and only when the read, the evaluation, the lookup of \<^verbatim>\<open>set\<close> and the
  conversion to a string have all succeeded.
\<close>

theorem calculate_display:
  "(\<forall>x w1 e w2. var_get env w = (Returns x, w1) \<and> py_eval env x w1 = (Raises e, w2) \<longrightarrow>
      calls_of (calculate env w) =
        [VarGet, EvalText x, ShowError ''Error'' ''Invalid expression''] \<and>
      world_of (calculate env w) = snd (showerror env ''Error'' ''Invalid expression'' w2) \<and>
      (shown w2 = shown w \<and>
       shown (snd (showerror env ''Error'' ''Invalid expression'' w2)) = shown w2 \<longrightarrow>
         shown (world_of (calculate env w)) = shown w)) \<and>
   (\<forall>text. VarSet text \<in> set (calls_of (calculate env w)) \<longrightarrow>
      (\<exists>x w1 v w2 m w3 w4.
         var_get env w = (Returns x, w1) \<and> py_eval env x w1 = (Returns v, w2) \<and>
         set_lookup env w2 = (Returns m, w3) \<and> py_str env v w3 = (Returns text, w4)))"
  by (auto simp: calculate_defs split: prod.splits outcome.splits)

theorem calculate_display_witness:
  "var_get tk_sample (window ''1 + '') = (Returns ''1 + '', window ''1 + '') \<and>
   py_eval tk_sample ''1 + '' (window ''1 + '') = (Raises SyntaxError, window ''1 + '') \<and>
   calls_of (calculate tk_sample (window ''1 + '')) =
     [VarGet, EvalText ''1 + '', ShowError ''Error'' ''Invalid expression''] \<and>
   var_text (world_of (calculate tk_sample (window ''1 + ''))) = ''1 + '' \<and>
   VarSet ''3'' \<in> set (calls_of (calculate tk_sample (window ''1 + 2''))) \<and>
   py_eval tk_sample ''1 + 2'' (window ''1 + 2'') = (Returns (IntObj 3), window ''1 + 2'') \<and>
   py_str tk_sample (IntObj 3) (window ''1 + 2'') = (Returns ''3'', window ''1 + 2'')"
proof -
  let ?w = "window ''1 + ''"
  have g: "var_get tk_sample ?w = (Returns ''1 + '', ?w)"
    and e: "py_eval tk_sample ''1 + '' ?w = (Raises SyntaxError, ?w)"
    by (simp_all add: tk_sample_defs)
  have s: "VarSet ''3'' \<in> set (calls_of (calculate tk_sample (window ''1 + 2'')))"
    by (simp add: calculate_defs tk_sample_defs)
  have r: "py_eval tk_sample ''1 + 2'' (window ''1 + 2'') = (Returns (IntObj 3), window ''1 + 2'')"
    "py_str tk_sample (IntObj 3) (window ''1 + 2'') = (Returns ''3'', window ''1 + 2'')"
    by (simp_all add: tk_sample_defs)
  from calculate_display [of tk_sample ?w var_text] g e
  have "calls_of (calculate tk_sample ?w) =
          [VarGet, EvalText ''1 + '', ShowError ''Error'' ''Invalid expression''] \<and>
        var_text (world_of (calculate tk_sample ?w)) = var_text ?w"
    by (simp add: tk_sample_def)
  with g e s r show ?thesis
    by (simp add: window_def)
qed

end
